theory Spec2Isabelle
  imports Complex_Main
begin

section \<open>Types and collaborators that the two classes use\<close>

text \<open>
  The identifier and weight types come from \<^verbatim>\<open>kahypar/definitions.h\<close>, which is not
  among the sources. Identifiers are natural numbers, and the largest value of the
  unsigned 32-bit type is the sentinel; the only arithmetic on them,
  \<^verbatim>\<open>edgeSize(he) - 1\<close>, comes after the assertion that the size exceeds 1. Weights,
  partition ids and community labels are integers (signed overflow is undefined in
  C++, so the model covers the runs without it).
\<close>

type_synonym HypernodeID = nat
type_synonym HyperedgeID = nat
type_synonym HypernodeWeight = int
type_synonym HyperedgeWeight = int
type_synonym PartitionID = int
type_synonym ClusterID = int
type_synonym Memento = "HypernodeID \<times> HypernodeID"

text \<open>\<^verbatim>\<open>std::numeric_limits<HypernodeID>::max()\<close>, the sentinel of both classes.\<close>

definition kInvalidTarget :: HypernodeID where
  "kInvalidTarget = 4294967295"

text \<open>
  \<^verbatim>\<open>ASSERT\<close> (\<^verbatim>\<open>kahypar/macros.h\<close>) is modelled as enabled: a failed assertion
  aborts the run, and the abort is a value. Each constructor names one assertion.
\<close>

datatype error =
    EdgeSizeAssertion
  | InvalidTargetAssertion
  | CommunityAssertion
  | PartAssertion
  | NodeDisabledAssertion

text \<open>
  Modelled from the spec: the hypergraph (\<^verbatim>\<open>kahypar/datastructure/hypergraph.h\<close>) is
  missing. Vertices have a weight, a partition id and an enabled flag; hyperedges have a
  weight and a sequence of pins. The incidence list of a vertex is read off the pins, so
  that the two views cannot disagree.
\<close>

record Hypergraph =
  initialNumNodes :: nat
  initialNumEdges :: nat
  nodeWeight :: "HypernodeID \<Rightarrow> HypernodeWeight"
  partID :: "HypernodeID \<Rightarrow> PartitionID"
  enabled :: "HypernodeID \<Rightarrow> bool"
  edgeWeight :: "HyperedgeID \<Rightarrow> HyperedgeWeight"
  pins :: "HyperedgeID \<Rightarrow> HypernodeID list"

definition edgeSize :: "Hypergraph \<Rightarrow> HyperedgeID \<Rightarrow> nat" where
  "edgeSize h he = length (pins h he)"

definition incidentEdges :: "Hypergraph \<Rightarrow> HypernodeID \<Rightarrow> HyperedgeID list" where
  "incidentEdges h u = filter (\<lambda>he. u \<in> set (pins h he)) [0..<initialNumEdges h]"

definition nodeIsEnabled :: "Hypergraph \<Rightarrow> HypernodeID \<Rightarrow> bool" where
  "nodeIsEnabled h u \<longleftrightarrow> u < initialNumNodes h \<and> enabled h u"

definition nodes :: "Hypergraph \<Rightarrow> HypernodeID list" where
  "nodes h = filter (enabled h) [0..<initialNumNodes h]"

definition currentNumNodes :: "Hypergraph \<Rightarrow> nat" where
  "currentNumNodes h = length (nodes h)"

text \<open>
  Modelled from the spec: \<^verbatim>\<open>Hypergraph::contract\<close> is missing. Contraction merges
  \<open>v\<close> into \<open>u\<close>: the weights are summed, the incidence is unified (in a hyperedge
  that holds both, \<open>v\<close> is dropped; in one that holds only \<open>v\<close>, \<open>u\<close> takes its
  place) and \<open>v\<close> is disabled.
\<close>

definition contract :: "Hypergraph \<Rightarrow> HypernodeID \<Rightarrow> HypernodeID \<Rightarrow> Hypergraph" where
  "contract h u v =
     h\<lparr>nodeWeight := (nodeWeight h)(u := nodeWeight h u + nodeWeight h v),
       enabled := (enabled h)(v := False),
       pins := (\<lambda>he. if v \<in> set (pins h he)
                      then (if u \<in> set (pins h he) then remove1 v (pins h he)
                            else map (\<lambda>x. if x = v then u else x) (pins h he))
                      else pins h he)\<rparr>"

section \<open>Template parameters\<close>

text \<open>
  \<open>'r\<close> is \<^verbatim>\<open>_RatingType\<close>; of the type only the operations that
  \<^verbatim>\<open>HeavyEdgeRater::rate\<close> applies are taken, as parameters, so that nothing is assumed
  about rounding; the comparison \<^verbatim>\<open>!=\<close> of line 140 is equality of \<open>'r\<close>.
  \<open>'g\<close> is the state of the process-wide random source
  (\<^verbatim>\<open>Randomize::instance()\<close>), which an acceptance policy with random tie breaking and
  the shuffle of the driver draw from. \<open>'c\<close> is whatever the callbacks of the driver own.
  The policy classes and the callbacks are not among the sources: they are parameters.
\<close>

record ('r, 'g, 'c) params =
  rt_zero :: 'r
  rt_min :: 'r
  rt_plus :: "'r \<Rightarrow> 'r \<Rightarrow> 'r"
  rt_divide :: "'r \<Rightarrow> 'r \<Rightarrow> 'r"
  rt_of_weight :: "HyperedgeWeight \<Rightarrow> 'r"
  rt_of_size :: "nat \<Rightarrow> 'r"
  penalty :: "HypernodeWeight \<Rightarrow> HypernodeWeight \<Rightarrow> 'r"
  acceptRating :: "'r \<Rightarrow> 'r \<Rightarrow> HypernodeID \<Rightarrow> HypernodeID \<Rightarrow> HypernodeID set \<Rightarrow> 'g \<Rightarrow> bool \<times> 'g"
  shuffleVector :: "HypernodeID list \<Rightarrow> 'g \<Rightarrow> HypernodeID list \<times> 'g"
  contraction_func :: "HypernodeID \<Rightarrow> HypernodeID \<Rightarrow> 'c \<Rightarrow> 'c"
  end_of_pass_func :: "'c \<Rightarrow> 'c"

section \<open>State\<close>

text \<open>
  One record holds what the rater and the driver own or refer to. Both classes keep a
  reference \<^verbatim>\<open>_hg\<close> to the same hypergraph and \<^verbatim>\<open>_context\<close> to the same
  configuration, hence one field each. \<open>tmp_ratings\<close> is the sparse map of the rater
  (\<^verbatim>\<open>ds::SparseMap\<close>, missing): its entries in insertion order; the constructor of
  the rater leaves it empty. \<open>comm\<close> is the vector \<^verbatim>\<open>_comm\<close>, which has an entry for
  every vertex of the hypergraph. \<open>already_matched\<close> is the set of the vertices whose
  flag is set in \<^verbatim>\<open>_already_matched\<close>.
\<close>

record ('r, 'g, 'c) coarsener =
  hg :: Hypergraph
  max_allowed_node_weight :: HypernodeWeight
  tmp_ratings :: "(HypernodeID \<times> 'r) list"
  comm :: "ClusterID list"
  already_matched :: "HypernodeID set"
  history :: "Memento list"
  randomize :: 'g
  callback_state :: 'c

record 'r Rating =
  target :: HypernodeID
  rvalue :: 'r
  valid :: bool

section \<open>HeavyEdgeRater\<close>

text \<open>The default constructor of \<^verbatim>\<open>HeavyEdgeRating\<close>.\<close>

definition HeavyEdgeRating :: "('r, 'g, 'c) params \<Rightarrow> 'r Rating" where
  "HeavyEdgeRating p = \<lparr>target = kInvalidTarget, rvalue = rt_min p, valid = False\<rparr>"


definition belowThresholdNodeWeight ::
  "('r, 'g, 'c) coarsener \<Rightarrow> HypernodeWeight \<Rightarrow> HypernodeWeight \<Rightarrow> bool" where
  "belowThresholdNodeWeight s weight_u weight_v \<longleftrightarrow>
     weight_v + weight_u \<le> max_allowed_node_weight s"

text \<open>
  Modelled from the spec: \<^verbatim>\<open>_tmp_ratings[v] += score\<close> on the missing sparse map. A key
  that is absent is appended with the value-initialised rating, then the score is added.
\<close>

definition sparse_map_add ::
  "('r, 'g, 'c) params \<Rightarrow> (HypernodeID \<times> 'r) list \<Rightarrow> HypernodeID \<Rightarrow> 'r \<Rightarrow> (HypernodeID \<times> 'r) list" where
  "sparse_map_add p m key score =
     (if key \<in> fst ` set m
      then map (\<lambda>(k, x). if k = key then (k, rt_plus p x score) else (k, x)) m
      else m @ [(key, rt_plus p (rt_zero p) score)])"

text \<open>The loop over the pins of one hyperedge (lines 114 to 119).\<close>

fun rate_pins ::
  "('r, 'g, 'c) params \<Rightarrow> HypernodeID \<Rightarrow> HypernodeWeight \<Rightarrow> PartitionID \<Rightarrow> 'r \<Rightarrow>
   HypernodeID list \<Rightarrow> ('r, 'g, 'c) coarsener \<Rightarrow> ('r, 'g, 'c) coarsener" where
  "rate_pins p u weight_u part_u score [] s = s"
| "rate_pins p u weight_u part_u score (v # vs) s =
     rate_pins p u weight_u part_u score vs
       (if v \<noteq> u \<and> belowThresholdNodeWeight s weight_u (nodeWeight (hg s) v) \<and>
           part_u = partID (hg s) v
        then s\<lparr>tmp_ratings := sparse_map_add p (tmp_ratings s) v score\<rparr>
        else s)"

text \<open>The loop over the incident hyperedges (lines 111 to 120), with its assertion.\<close>

fun rate_edges ::
  "('r, 'g, 'c) params \<Rightarrow> HypernodeID \<Rightarrow> HypernodeWeight \<Rightarrow> PartitionID \<Rightarrow>
   HyperedgeID list \<Rightarrow> ('r, 'g, 'c) coarsener \<Rightarrow> error + ('r, 'g, 'c) coarsener" where
  "rate_edges p u weight_u part_u [] s = Inr s"
| "rate_edges p u weight_u part_u (he # hes) s =
     (if \<not> edgeSize (hg s) he > 1 then Inl EdgeSizeAssertion
      else rate_edges p u weight_u part_u hes
             (rate_pins p u weight_u part_u
                (rt_divide p (rt_of_weight p (edgeWeight (hg s) he))
                             (rt_of_size p (edgeSize (hg s) he - 1)))
                (pins (hg s) he) s))"

text \<open>
  The loop over the entries of the sparse map (lines 124 to 136); the caller passes them
  last first. The acceptance policy is asked only for a candidate of the community of
  \<open>u\<close>, and may advance the random source.
\<close>

fun rate_scan ::
  "('r, 'g, 'c) params \<Rightarrow> HypernodeID \<Rightarrow> HypernodeWeight \<Rightarrow> (HypernodeID \<times> 'r) list \<Rightarrow>
   'r \<times> HypernodeID \<Rightarrow> ('r, 'g, 'c) coarsener \<Rightarrow> ('r \<times> HypernodeID) \<times> ('r, 'g, 'c) coarsener" where
  "rate_scan p u weight_u [] best s = (best, s)"
| "rate_scan p u weight_u ((tmp_target, x) # es) (max_rating, tgt) s =
     (let tmp_rating = rt_divide p x (penalty p weight_u (nodeWeight (hg s) tmp_target)) in
      if comm s ! u = comm s ! tmp_target
      then (case acceptRating p tmp_rating max_rating tgt tmp_target (already_matched s)
                   (randomize s) of
              (accepted, g) \<Rightarrow>
                rate_scan p u weight_u es
                  (if accepted then (tmp_rating, tmp_target) else (max_rating, tgt))
                  (s\<lparr>randomize := g\<rparr>))
      else rate_scan p u weight_u es (max_rating, tgt) s)"

definition rate ::
  "('r, 'g, 'c) params \<Rightarrow> HypernodeID \<Rightarrow> ('r, 'g, 'c) coarsener \<Rightarrow>
   error + ('r Rating \<times> ('r, 'g, 'c) coarsener)" where
  "rate p u s =
     (let weight_u = nodeWeight (hg s) u;
          part_u = partID (hg s) u
      in case rate_edges p u weight_u part_u (incidentEdges (hg s) u) s of
           Inl e \<Rightarrow> Inl e
         | Inr s1 \<Rightarrow>
             (case rate_scan p u weight_u (rev (tmp_ratings s1)) (rt_min p, kInvalidTarget) s1 of
                ((max_rating, tgt), s2) \<Rightarrow>
                  (let s3 = s2\<lparr>tmp_ratings := []\<rparr> in
                   if max_rating \<noteq> rt_min p
                   then (if tgt = kInvalidTarget then Inl InvalidTargetAssertion
                         else if comm s3 ! u \<noteq> comm s3 ! tgt then Inl CommunityAssertion
                         else if partID (hg s3) u \<noteq> partID (hg s3) tgt then Inl PartAssertion
                         else Inr (\<lparr>target = tgt, rvalue = max_rating, valid = True\<rparr>, s3))
                   else Inr (HeavyEdgeRating p, s3))))"

definition markAsMatched ::
  "HypernodeID \<Rightarrow> ('r, 'g, 'c) coarsener \<Rightarrow> ('r, 'g, 'c) coarsener" where
  "markAsMatched hn s = s\<lparr>already_matched := insert hn (already_matched s)\<rparr>"

definition resetMatches :: "('r, 'g, 'c) coarsener \<Rightarrow> ('r, 'g, 'c) coarsener" where
  "resetMatches s = s\<lparr>already_matched := {}\<rparr>"

section \<open>MLCoarsener\<close>

text \<open>
  The driver is instantiated with \<^verbatim>\<open>VertexPairRater\<close>, which is not among the
  sources; the rater that is, \<^verbatim>\<open>HeavyEdgeRater\<close>, has the interface the driver calls
  (\<^verbatim>\<open>rate\<close>, \<^verbatim>\<open>markAsMatched\<close>, \<^verbatim>\<open>resetMatches\<close>) and stands for it.

  Modelled from the spec: \<^verbatim>\<open>VertexPairCoarsenerBase::performContraction\<close> is missing.
  It performs the contraction against the hypergraph and appends the record to the
  history; a contraction asked for a disabled or nonexistent vertex aborts. Nothing else
  is done to the hypergraph: a hyperedge that the contraction leaves with one pin stays
  in the incidence of the representative.
\<close>

definition performContraction ::
  "HypernodeID \<Rightarrow> HypernodeID \<Rightarrow> ('r, 'g, 'c) coarsener \<Rightarrow> error + ('r, 'g, 'c) coarsener" where
  "performContraction rep_node contracted_node s =
     (if \<not> nodeIsEnabled (hg s) rep_node \<or> \<not> nodeIsEnabled (hg s) contracted_node
      then Inl NodeDisabledAssertion
      else Inr (s\<lparr>hg := contract (hg s) rep_node contracted_node,
                  history := history s @ [(rep_node, contracted_node)]\<rparr>))"


text \<open>Lines 130 to 140: what the driver does with the rating of \<open>hn\<close>.\<close>

definition contract_rated ::
  "('r, 'g, 'c) params \<Rightarrow> HypernodeID \<Rightarrow> 'r Rating \<Rightarrow> ('r, 'g, 'c) coarsener \<Rightarrow>
   error + ('r, 'g, 'c) coarsener" where
  "contract_rated p hn rating s =
     (if target rating \<noteq> kInvalidTarget
      then (case performContraction hn (target rating)
                   (markAsMatched (target rating) (markAsMatched hn s)) of
              Inl e \<Rightarrow> Inl e
            | Inr s1 \<Rightarrow>
                Inr (s1\<lparr>callback_state :=
                           contraction_func p hn (target rating) (callback_state s1)\<rparr>))
      else Inr s)"

text \<open>The loop over the shuffled vertices (lines 126 to 146), with its \<^verbatim>\<open>break\<close>.\<close>

fun coarsen_hns ::
  "('r, 'g, 'c) params \<Rightarrow> HypernodeID \<Rightarrow> HypernodeID list \<Rightarrow> ('r, 'g, 'c) coarsener \<Rightarrow>
   error + ('r, 'g, 'c) coarsener" where
  "coarsen_hns p limit [] s = Inr s"
| "coarsen_hns p limit (hn # hns) s =
     (if nodeIsEnabled (hg s) hn
      then (case rate p hn s of
              Inl e \<Rightarrow> Inl e
            | Inr (rating, s1) \<Rightarrow>
                (case contract_rated p hn rating s1 of
                   Inl e \<Rightarrow> Inl e
                 | Inr s2 \<Rightarrow>
                     if currentNumNodes (hg s2) \<le> limit then Inr s2
                     else coarsen_hns p limit hns s2))
      else coarsen_hns p limit hns s)"

text \<open>One pass: the body of the \<^verbatim>\<open>while\<close> loop up to the end-of-pass callback.\<close>

definition coarsen_pass ::
  "('r, 'g, 'c) params \<Rightarrow> HypernodeID \<Rightarrow> ('r, 'g, 'c) coarsener \<Rightarrow>
   error + ('r, 'g, 'c) coarsener" where
  "coarsen_pass p limit s =
     (let s1 = resetMatches s;
          current_hns = nodes (hg s1)
      in case shuffleVector p current_hns (randomize s1) of
           (shuffled, g) \<Rightarrow>
             (case coarsen_hns p limit shuffled (s1\<lparr>randomize := g\<rparr>) of
                Inl e \<Rightarrow> Inl e
              | Inr s2 \<Rightarrow>
                  Inr (s2\<lparr>callback_state := end_of_pass_func p (callback_state s2)\<rparr>)))"

text \<open>
  The \<^verbatim>\<open>while\<close> loop of \<^verbatim>\<open>coarsenImpl\<close>. The local \<^verbatim>\<open>pass_nr\<close> is returned with
  the state.
\<close>

function coarsen_while ::
  "('r, 'g, 'c) params \<Rightarrow> HypernodeID \<Rightarrow> int \<Rightarrow> ('r, 'g, 'c) coarsener \<Rightarrow>
   error + (int \<times> ('r, 'g, 'c) coarsener)" where
  "coarsen_while p limit pass_nr s =
     (if currentNumNodes (hg s) > limit
      then (case coarsen_pass p limit s of
              Inl e \<Rightarrow> Inl e
            | Inr s1 \<Rightarrow>
                if currentNumNodes (hg s) = currentNumNodes (hg s1) then Inr (pass_nr, s1)
                else coarsen_while p limit (pass_nr + 1) s1)
      else Inr (pass_nr, s))"
  by pat_completeness auto

definition coarsenImpl ::
  "('r, 'g, 'c) params \<Rightarrow> HypernodeID \<Rightarrow> ('r, 'g, 'c) coarsener \<Rightarrow>
   error + (int \<times> ('r, 'g, 'c) coarsener)" where
  "coarsenImpl p limit s = coarsen_while p limit 0 s"

section \<open>Predicates of the claims\<close>

subsection \<open>The score of the spec\<close>




subsection \<open>Passes and contractions of the driver\<close>

text \<open>
  A pass that the loop of \<^verbatim>\<open>coarsenImpl\<close> runs and that is followed by another test of
  the loop condition: the loop was entered, the pass returned, and the number of live
  vertices changed.
\<close>

definition productive_pass ::
  "('r, 'g, 'c) params \<Rightarrow> HypernodeID \<Rightarrow> ('r, 'g, 'c) coarsener \<Rightarrow> ('r, 'g, 'c) coarsener \<Rightarrow> bool" where
  "productive_pass p limit s s' \<longleftrightarrow>
     limit < currentNumNodes (hg s) \<and> coarsen_pass p limit s = Inr s' \<and>
     currentNumNodes (hg s) \<noteq> currentNumNodes (hg s')"

text \<open>The hypergraph after the contractions of a list of records, first to last.\<close>

fun replay :: "Hypergraph \<Rightarrow> Memento list \<Rightarrow> Hypergraph" where
  "replay h [] = h"
| "replay h ((u, v) # ms) = replay (contract h u v) ms"




text \<open>
  The scenario of claim C8: a hypergraph of two enabled vertices of weight 1 each whose
  hyperedges have more than one pin, all of them vertices of the hypergraph; threshold 1;
  the accumulator of the rater empty.
\<close>

definition two_unit_vertices :: "('r, 'g, 'c) coarsener \<Rightarrow> bool" where
  "two_unit_vertices s \<longleftrightarrow>
     initialNumNodes (hg s) = 2 \<and> enabled (hg s) 0 \<and> enabled (hg s) 1 \<and>
     nodeWeight (hg s) 0 = 1 \<and> nodeWeight (hg s) 1 = 1 \<and>
     max_allowed_node_weight s = 1 \<and> tmp_ratings s = [] \<and>
     (\<forall>he \<in> {..<initialNumEdges (hg s)}.
        1 < edgeSize (hg s) he \<and> set (pins (hg s) he) \<subseteq> {0, 1})"

section \<open>Instances for the examples\<close>

text \<open>
  Modelled from the spec: the policy classes, the random source and the callbacks are
  missing. The examples take exact rational arithmetic for the rating type (with the
  value of \<^verbatim>\<open>std::numeric_limits<double>::min()\<close> as its minimum; on the numbers of
  the examples double does not round), the multiplicative penalty, an acceptance policy
  that takes a better rating and flips a coin on an equal one, a random source that is
  a list of coin flips, a shuffle that returns the order it is given, and callbacks that
  log the contractions and count the passes.
\<close>

definition flipCoin :: "bool list \<Rightarrow> bool \<times> bool list" where
  "flipCoin g = (case g of [] \<Rightarrow> (False, []) | b # g' \<Rightarrow> (b, g'))"

definition ex_params :: "(rat, bool list, Memento list \<times> nat) params" where
  "ex_params =
     \<lparr>rt_zero = 0, rt_min = 1 / 2 ^ 1022, rt_plus = (+), rt_divide = (/),
      rt_of_weight = of_int, rt_of_size = of_nat,
      penalty = (\<lambda>weight_u weight_v. of_int (weight_u * weight_v)),
      acceptRating = (\<lambda>tmp max_rating old_target new_target matched g.
         if max_rating < tmp then (True, g)
         else if max_rating = tmp then flipCoin g else (False, g)),
      shuffleVector = (\<lambda>hns g. (hns, g)),
      contraction_func = (\<lambda>u v (log, n). (log @ [(u, v)], n)),
      end_of_pass_func = (\<lambda>(log, n). (log, n + 1))\<rparr>"

text \<open>The same instance with an acceptance policy that draws nothing: a better rating wins.\<close>

definition ex_params_det :: "(rat, bool list, Memento list \<times> nat) params" where
  "ex_params_det =
     ex_params\<lparr>acceptRating :=
       (\<lambda>tmp max_rating old_target new_target matched g. (max_rating < tmp, g))\<rparr>"

text \<open>
  A scenario of the spec: four vertices of weight 1, one hyperedge of weight 6 that
  holds them all, one community, one partition, threshold 10; and the state that one
  pass with limit 2 leaves it in.
\<close>

definition ex_hg :: Hypergraph where
  "ex_hg = \<lparr>initialNumNodes = 4, initialNumEdges = 1, nodeWeight = (\<lambda>u. 1),
            partID = (\<lambda>u. 0), enabled = (\<lambda>u. True), edgeWeight = (\<lambda>he. 6),
            pins = (\<lambda>he. if he = 0 then [0, 1, 2, 3] else [])\<rparr>"

definition ex_state :: "(rat, bool list, Memento list \<times> nat) coarsener" where
  "ex_state = \<lparr>hg = ex_hg, max_allowed_node_weight = 10, tmp_ratings = [],
               comm = [0, 0, 0, 0], already_matched = {}, history = [],
               randomize = [True, False], callback_state = ([], 0)\<rparr>"

definition ex_final :: "(rat, bool list, Memento list \<times> nat) coarsener" where
  "ex_final = ex_state\<lparr>hg := replay ex_hg [(0, 2), (1, 3)], already_matched := {3, 1, 2, 0},
                        history := [(0, 2), (1, 3)], randomize := [],
                        callback_state := ([(0, 2), (1, 3)], 1)\<rparr>"

text \<open>
  The other scenario of the spec: two vertices of weight 1 in one hyperedge, threshold 1;
  and the state that a pass leaves it in.
\<close>

definition ex_hg2 :: Hypergraph where
  "ex_hg2 = \<lparr>initialNumNodes = 2, initialNumEdges = 1, nodeWeight = (\<lambda>u. 1),
             partID = (\<lambda>u. 0), enabled = (\<lambda>u. True), edgeWeight = (\<lambda>he. 1),
             pins = (\<lambda>he. if he = 0 then [0, 1] else [])\<rparr>"

definition ex_state2 :: "(rat, bool list, Memento list \<times> nat) coarsener" where
  "ex_state2 = \<lparr>hg = ex_hg2, max_allowed_node_weight = 1, tmp_ratings = [],
                comm = [0, 0], already_matched = {}, history = [],
                randomize = [True, False], callback_state = ([], 0)\<rparr>"

definition ex_stalled :: "(rat, bool list, Memento list \<times> nat) coarsener" where
  "ex_stalled = ex_state2\<lparr>callback_state := ([], 1)\<rparr>"

text \<open>
  A hypergraph with a hyperedge of a single pin: vertex 0 is the only pin of hyperedge 0
  and shares hyperedge 1 with vertex 1.
\<close>

definition ex_hg_single :: Hypergraph where
  "ex_hg_single = \<lparr>initialNumNodes = 2, initialNumEdges = 2, nodeWeight = (\<lambda>u. 1),
             partID = (\<lambda>u. 0), enabled = (\<lambda>u. True), edgeWeight = (\<lambda>he. 1),
             pins = (\<lambda>he. if he = 0 then [0] else if he = 1 then [0, 1] else [])\<rparr>"

definition ex_state_single :: "(rat, bool list, Memento list \<times> nat) coarsener" where
  "ex_state_single = ex_state\<lparr>hg := ex_hg_single, comm := [0, 0]\<rparr>"

section \<open>Frame of the loops of the rater\<close>

lemma rate_pins_frame:
  "hg (rate_pins p u wu pu sc vs s) = hg s \<and>
   max_allowed_node_weight (rate_pins p u wu pu sc vs s) = max_allowed_node_weight s \<and>
   comm (rate_pins p u wu pu sc vs s) = comm s \<and>
   already_matched (rate_pins p u wu pu sc vs s) = already_matched s \<and>
   history (rate_pins p u wu pu sc vs s) = history s \<and>
   randomize (rate_pins p u wu pu sc vs s) = randomize s \<and>
   callback_state (rate_pins p u wu pu sc vs s) = callback_state s"
  by (induction vs arbitrary: s) simp_all

lemma rate_pins_eq:
  "rate_pins p u wu pu sc vs s = s\<lparr>tmp_ratings := tmp_ratings (rate_pins p u wu pu sc vs s)\<rparr>"
  by (rule coarsener.equality) (simp_all add: rate_pins_frame)

lemma rate_edges_frame:
  "rate_edges p u wu pu hes s = Inr s' \<Longrightarrow> s' = s\<lparr>tmp_ratings := tmp_ratings s'\<rparr>"
proof (induction hes arbitrary: s)
  case Nil
  then show ?case by simp
next
  case (Cons he hes)
  let ?s1 = "rate_pins p u wu pu
                (rt_divide p (rt_of_weight p (edgeWeight (hg s) he))
                             (rt_of_size p (edgeSize (hg s) he - 1)))
                (pins (hg s) he) s"
  from Cons.prems have "rate_edges p u wu pu hes ?s1 = Inr s'"
    by (simp split: if_splits)
  then have "s' = ?s1\<lparr>tmp_ratings := tmp_ratings s'\<rparr>" by (rule Cons.IH)
  also have "\<dots> = s\<lparr>tmp_ratings := tmp_ratings s'\<rparr>"
    by (subst rate_pins_eq) simp
  finally show ?case .
qed

lemma rate_scan_frame:
  "rate_scan p u wu es best s = (best', s') \<Longrightarrow> s' = s\<lparr>randomize := randomize s'\<rparr>"
proof (induction es arbitrary: best s)
  case Nil
  then show ?case by simp
next
  case (Cons e es)
  obtain k x where e: "e = (k, x)" by (cases e)
  obtain m t where best: "best = (m, t)" by (cases best)
  show ?case
  proof (cases "comm s ! u = comm s ! k")
    case True
    obtain a g where acc: "acceptRating p (rt_divide p x (penalty p wu (nodeWeight (hg s) k))) m t k
        (already_matched s) (randomize s) = (a, g)" by fastforce
    from Cons.prems True acc have "rate_scan p u wu es
        (if a then (rt_divide p x (penalty p wu (nodeWeight (hg s) k)), k) else (m, t))
        (s\<lparr>randomize := g\<rparr>) = (best', s')"
      by (simp add: e best Let_def)
    then have "s' = (s\<lparr>randomize := g\<rparr>)\<lparr>randomize := randomize s'\<rparr>" by (rule Cons.IH)
    then show ?thesis by simp
  next
    case False
    with Cons.prems have "rate_scan p u wu es (m, t) s = (best', s')"
      by (simp add: e best Let_def)
    then show ?thesis by (rule Cons.IH)
  qed
qed

lemma rate_frame:
  assumes "rate p u s = Inr (r, s')"
  shows "s' = s\<lparr>tmp_ratings := [], randomize := randomize s'\<rparr>"
proof -
  from assms obtain s1 where s1: "rate_edges p u (nodeWeight (hg s) u) (partID (hg s) u) (incidentEdges (hg s) u) s = Inr s1"
    by (auto simp: rate_def Let_def split: sum.splits)
  obtain b s2 where s2: "rate_scan p u (nodeWeight (hg s) u) (rev (tmp_ratings s1)) (rt_min p, kInvalidTarget) s1 = (b, s2)"
    by fastforce
  from assms s1 s2 have s': "s' = s2\<lparr>tmp_ratings := []\<rparr>"
    by (auto simp: rate_def Let_def split: sum.splits prod.splits if_splits)
  from rate_edges_frame[OF s1] have e1: "s1 = s\<lparr>tmp_ratings := tmp_ratings s1\<rparr>" .
  from rate_scan_frame[OF s2] have e2: "s2 = s1\<lparr>randomize := randomize s2\<rparr>" .
  have "s' = (s1\<lparr>randomize := randomize s2\<rparr>)\<lparr>tmp_ratings := []\<rparr>" using s' e2 by simp
  also have "\<dots> = ((s\<lparr>tmp_ratings := tmp_ratings s1\<rparr>)\<lparr>randomize := randomize s2\<rparr>)\<lparr>tmp_ratings := []\<rparr>"
    using e1 by simp
  also have "\<dots> = s\<lparr>tmp_ratings := [], randomize := randomize s2\<rparr>" by simp
  finally show ?thesis using s' by simp
qed

section \<open>The sparse map\<close>

lemma sparse_map_add_keys:
  "fst ` set (sparse_map_add p m k x) = insert k (fst ` set m)"
proof (cases "k \<in> fst ` set m")
  case True
  have "fst ` set (map (\<lambda>(k', y). if k' = k then (k', rt_plus p y x) else (k', y)) m) = fst ` set m"
    by (induction m) auto
  with True show ?thesis by (auto simp: sparse_map_add_def)
next
  case False
  then show ?thesis by (simp add: sparse_map_add_def)
qed





section \<open>The keys of the accumulator\<close>

lemma rate_pins_keys:
  "k \<in> fst ` set (tmp_ratings (rate_pins p u wu pu sc vs s)) \<longleftrightarrow>
     k \<in> fst ` set (tmp_ratings s) \<or>
     (k \<in> set vs \<and> k \<noteq> u \<and> belowThresholdNodeWeight s wu (nodeWeight (hg s) k) \<and>
                  pu = partID (hg s) k)"
proof (induction vs arbitrary: s)
  case Nil
  then show ?case by simp
next
  case (Cons v vs)
  show ?case
  proof (cases "v \<noteq> u \<and> belowThresholdNodeWeight s wu (nodeWeight (hg s) v) \<and>
                pu = partID (hg s) v")
    case True
    let ?s1 = "s\<lparr>tmp_ratings := sparse_map_add p (tmp_ratings s) v sc\<rparr>"
    from True have step: "rate_pins p u wu pu sc (v # vs) s = rate_pins p u wu pu sc vs ?s1"
      by simp
    have k1: "fst ` set (tmp_ratings ?s1) = insert v (fst ` set (tmp_ratings s))"
      by (simp add: sparse_map_add_keys)
    have b1: "belowThresholdNodeWeight ?s1 wu (nodeWeight (hg ?s1) k) =
              belowThresholdNodeWeight s wu (nodeWeight (hg s) k)"
      by (simp add: belowThresholdNodeWeight_def)
    have p1: "partID (hg ?s1) k = partID (hg s) k" by simp
    have "k \<in> fst ` set (tmp_ratings (rate_pins p u wu pu sc vs ?s1)) \<longleftrightarrow>
       k \<in> insert v (fst ` set (tmp_ratings s)) \<or>
       (k \<in> set vs \<and> k \<noteq> u \<and> belowThresholdNodeWeight s wu (nodeWeight (hg s) k) \<and>
                  pu = partID (hg s) k)"
      using Cons.IH [of ?s1] unfolding k1 b1 p1 .
    with True show ?thesis unfolding step by auto
  next
    case False
    then have step: "rate_pins p u wu pu sc (v # vs) s = rate_pins p u wu pu sc vs s"
      by auto
    from False show ?thesis unfolding step Cons.IH by auto
  qed
qed


lemma rate_edges_keys:
  "rate_edges p u wu pu hes s = Inr s' \<Longrightarrow>
   k \<in> fst ` set (tmp_ratings s') \<longleftrightarrow>
     k \<in> fst ` set (tmp_ratings s) \<or>
     ((\<exists>he \<in> set hes. k \<in> set (pins (hg s) he)) \<and> k \<noteq> u \<and>
         belowThresholdNodeWeight s wu (nodeWeight (hg s) k) \<and> pu = partID (hg s) k)"
proof (induction hes arbitrary: s)
  case Nil
  then show ?case by auto
next
  case (Cons he hes)
  let ?s1 = "rate_pins p u wu pu
                (rt_divide p (rt_of_weight p (edgeWeight (hg s) he))
                             (rt_of_size p (edgeSize (hg s) he - 1)))
                (pins (hg s) he) s"
  from Cons.prems have run: "rate_edges p u wu pu hes ?s1 = Inr s'"
    by (simp split: if_splits)
  have fr: "hg ?s1 = hg s"
    "belowThresholdNodeWeight ?s1 = belowThresholdNodeWeight s"
    by (simp_all add: rate_pins_frame fun_eq_iff belowThresholdNodeWeight_def)
  have a: "k \<in> fst ` set (tmp_ratings s') \<longleftrightarrow>
     k \<in> fst ` set (tmp_ratings ?s1) \<or>
     ((\<exists>he \<in> set hes. k \<in> set (pins (hg s) he)) \<and> k \<noteq> u \<and>
         belowThresholdNodeWeight s wu (nodeWeight (hg s) k) \<and> pu = partID (hg s) k)"
    using Cons.IH [OF run] unfolding fr .
  show ?case unfolding a rate_pins_keys by auto
qed


section \<open>What the scan selects\<close>

lemma rate_scan_selects:
  "rate_scan p u wu es best s = (best', s') \<Longrightarrow>
   best' = best \<or>
   (\<exists>x. (snd best', x) \<in> set es \<and> comm s ! u = comm s ! snd best' \<and>
        fst best' = rt_divide p x (penalty p wu (nodeWeight (hg s) (snd best'))))"
proof (induction es arbitrary: best s)
  case Nil
  then show ?case by simp
next
  case (Cons e es)
  obtain k x where e: "e = (k, x)" by (cases e)
  obtain m t where best: "best = (m, t)" by (cases best)
  let ?r = "rt_divide p x (penalty p wu (nodeWeight (hg s) k))"
  show ?case
  proof (cases "comm s ! u = comm s ! k")
    case True
    obtain a g where acc: "acceptRating p ?r m t k (already_matched s) (randomize s) = (a, g)"
      by fastforce
    from Cons.prems True acc have run: "rate_scan p u wu es
        (if a then (?r, k) else (m, t)) (s\<lparr>randomize := g\<rparr>) = (best', s')"
      by (simp add: e best Let_def)
    have same: "comm (s\<lparr>randomize := g\<rparr>) = comm s" "hg (s\<lparr>randomize := g\<rparr>) = hg s"
      by simp_all
    note IH = Cons.IH [OF run, unfolded same]
    show ?thesis
    proof (cases a)
      case True
      from IH True have "best' = (?r, k) \<or>
        (\<exists>x. (snd best', x) \<in> set es \<and> comm s ! u = comm s ! snd best' \<and>
          fst best' = rt_divide p x (penalty p wu (nodeWeight (hg s) (snd best'))))" by simp
      then show ?thesis
      proof
        assume "best' = (?r, k)"
        then have "(snd best', x) \<in> set (e # es) \<and> comm s ! u = comm s ! snd best' \<and>
          fst best' = rt_divide p x (penalty p wu (nodeWeight (hg s) (snd best')))"
          using \<open>comm s ! u = comm s ! k\<close> by (simp add: e)
        then show ?thesis by blast
      next
        assume "\<exists>x. (snd best', x) \<in> set es \<and> comm s ! u = comm s ! snd best' \<and>
          fst best' = rt_divide p x (penalty p wu (nodeWeight (hg s) (snd best')))"
        then show ?thesis by auto
      qed
    next
      case False
      from IH False have "best' = best \<or>
        (\<exists>x. (snd best', x) \<in> set es \<and> comm s ! u = comm s ! snd best' \<and>
          fst best' = rt_divide p x (penalty p wu (nodeWeight (hg s) (snd best'))))"
        by (simp add: best)
      then show ?thesis by auto
    qed
  next
    case False
    with Cons.prems have run: "rate_scan p u wu es (m, t) s = (best', s')"
      by (simp add: e best Let_def)
    from Cons.IH [OF run] have "best' = best \<or>
        (\<exists>x. (snd best', x) \<in> set es \<and> comm s ! u = comm s ! snd best' \<and>
          fst best' = rt_divide p x (penalty p wu (nodeWeight (hg s) (snd best'))))"
      by (simp add: best)
    then show ?thesis by auto
  qed
qed

section \<open>The live vertex count\<close>

lemma length_filter_remove:
  "distinct xs \<Longrightarrow> v \<in> set xs \<Longrightarrow> f v \<Longrightarrow>
   Suc (length (filter (\<lambda>x. x \<noteq> v \<and> f x) xs)) = length (filter f xs)"
proof (induction xs)
  case Nil
  then show ?case by simp
next
  case (Cons a xs)
  show ?case
  proof (cases "a = v")
    case True
    with Cons.prems have "v \<notin> set xs" by simp
    then have "filter (\<lambda>x. x \<noteq> v \<and> f x) xs = filter f xs"
      by (intro filter_cong) auto
    with True Cons.prems show ?thesis by simp
  next
    case False
    with Cons show ?thesis by simp
  qed
qed

lemma currentNumNodes_contract:
  assumes "nodeIsEnabled h v"
  shows "Suc (currentNumNodes (contract h u v)) = currentNumNodes h"
proof -
  have "(enabled h)(v := False) = (\<lambda>x. x \<noteq> v \<and> enabled h x)"
    by (auto simp: fun_eq_iff)
  moreover have "Suc (length (filter (\<lambda>x. x \<noteq> v \<and> enabled h x) [0..<initialNumNodes h])) =
      length (filter (enabled h) [0..<initialNumNodes h])"
    using assms by (intro length_filter_remove) (simp_all add: nodeIsEnabled_def)
  ultimately show ?thesis
    by (simp add: currentNumNodes_def nodes_def contract_def)
qed

lemma performContraction_count:
  "performContraction u v s = Inr s' \<Longrightarrow>
   Suc (currentNumNodes (hg s')) = currentNumNodes (hg s) \<and> history s' = history s @ [(u, v)]"
  by (auto simp: performContraction_def currentNumNodes_contract split: if_splits)

lemma contract_rated_count:
  "contract_rated p hn r s = Inr s' \<Longrightarrow>
   \<exists>ms. history s' = history s @ ms \<and>
        currentNumNodes (hg s') + length ms = currentNumNodes (hg s)"
proof (cases "target r = kInvalidTarget")
  case True
  assume "contract_rated p hn r s = Inr s'"
  with True have "s' = s" by (simp add: contract_rated_def)
  then show ?thesis by simp
next
  case False
  assume "contract_rated p hn r s = Inr s'"
  with False obtain s1 where
    pc: "performContraction hn (target r) (markAsMatched (target r) (markAsMatched hn s)) = Inr s1"
    and s': "s' = s1\<lparr>callback_state := contraction_func p hn (target r) (callback_state s1)\<rparr>"
    by (auto simp: contract_rated_def split: sum.splits)
  from performContraction_count [OF pc]
  have "history s' = history s @ [(hn, target r)] \<and>
        currentNumNodes (hg s') + length [(hn, target r)] = currentNumNodes (hg s)"
    by (simp add: s' markAsMatched_def)
  then show ?thesis by blast
qed

lemma coarsen_hns_count:
  "coarsen_hns p limit hns s = Inr s' \<Longrightarrow>
   \<exists>ms. history s' = history s @ ms \<and>
        currentNumNodes (hg s') + length ms = currentNumNodes (hg s)"
proof (induction hns arbitrary: s)
  case Nil
  then show ?case by simp
next
  case (Cons hn hns)
  show ?case
  proof (cases "nodeIsEnabled (hg s) hn")
    case False
    with Cons.prems have "coarsen_hns p limit hns s = Inr s'" by simp
    then show ?thesis by (rule Cons.IH)
  next
    case True
    with Cons.prems obtain r s1 where r: "rate p hn s = Inr (r, s1)"
      by (auto split: sum.splits)
    with Cons.prems True obtain s2 where s2: "contract_rated p hn r s1 = Inr s2"
      by (auto split: sum.splits)
    from rate_frame [OF r] obtain g where "s1 = s\<lparr>tmp_ratings := [], randomize := g\<rparr>" ..
    then have f1: "hg s1 = hg s" "history s1 = history s" by simp_all
    from contract_rated_count [OF s2] obtain ms where
      ms: "history s2 = history s @ ms"
        "currentNumNodes (hg s2) + length ms = currentNumNodes (hg s)"
      unfolding f1 by blast
    show ?thesis
    proof (cases "currentNumNodes (hg s2) \<le> limit")
      case True
      with Cons.prems \<open>nodeIsEnabled (hg s) hn\<close> r s2 have "s' = s2" by simp
      with ms show ?thesis by blast
    next
      case False
      with Cons.prems \<open>nodeIsEnabled (hg s) hn\<close> r s2
      have "coarsen_hns p limit hns s2 = Inr s'" by simp
      from Cons.IH [OF this] obtain ms' where
        "history s' = history s2 @ ms'"
        "currentNumNodes (hg s') + length ms' = currentNumNodes (hg s2)"
        by blast
      with ms have "history s' = history s @ (ms @ ms') \<and>
        currentNumNodes (hg s') + length (ms @ ms') = currentNumNodes (hg s)"
        by simp
      then show ?thesis by blast
    qed
  qed
qed

lemma coarsen_pass_count:
  assumes "coarsen_pass p limit s = Inr s'"
  shows "\<exists>ms. history s' = history s @ ms \<and>
        currentNumNodes (hg s') + length ms = currentNumNodes (hg s)"
proof -
  obtain shuffled g where sh: "shuffleVector p (nodes (hg s)) (randomize s) = (shuffled, g)"
    by fastforce
  with assms obtain s2 where
    s2: "coarsen_hns p limit shuffled (s\<lparr>already_matched := {}, randomize := g\<rparr>) = Inr s2"
    and s': "s' = s2\<lparr>callback_state := end_of_pass_func p (callback_state s2)\<rparr>"
    by (auto simp: coarsen_pass_def resetMatches_def Let_def split: sum.splits)
  from coarsen_hns_count [OF s2] show ?thesis by (simp add: s')
qed

termination coarsen_while
proof (relation "measure (\<lambda>(p, limit, pass_nr, s). currentNumNodes (hg s))")
  show "wf (measure (\<lambda>(p, limit, pass_nr, s). currentNumNodes (hg s)))" by simp
next
  fix p :: "('r, 'g, 'c) params" and limit :: nat and pass_nr :: int
    and s s1 :: "('r, 'g, 'c) coarsener"
  assume "coarsen_pass p limit s = Inr s1"
    and "currentNumNodes (hg s) \<noteq> currentNumNodes (hg s1)"
  with coarsen_pass_count [of p limit s s1]
  show "((p, limit, pass_nr + 1, s1), (p, limit, pass_nr, s))
          \<in> measure (\<lambda>(p, limit, pass_nr, s). currentNumNodes (hg s))"
    by auto
qed

declare coarsen_while.simps [simp del]

section \<open>What a returned rating is\<close>


lemma rate_sentinels:
  assumes "rate p u s = Inr (r, s')"
  shows "(valid r \<longleftrightarrow> target r \<noteq> kInvalidTarget) \<and>
         (valid r \<longleftrightarrow> rvalue r \<noteq> rt_min p) \<and>
         (\<not> valid r \<longrightarrow> target r = kInvalidTarget \<and> rvalue r = rt_min p)"
  using assms
  by (auto simp: rate_def Let_def HeavyEdgeRating_def split: sum.splits prod.splits if_splits)

section \<open>The contractions of a run\<close>







section \<open>Where the loop of the driver stops\<close>

lemma coarsen_while_stops:
  "coarsen_while p limit k s = Inr (k', s') \<Longrightarrow>
   k \<le> k' \<and> nat (k' - k) + currentNumNodes (hg s') \<le> currentNumNodes (hg s) \<and>
   (\<exists>s0. (productive_pass p limit ^^ nat (k' - k)) s s0 \<and>
      (s' = s0 \<and> currentNumNodes (hg s') \<le> limit \<or>
       limit < currentNumNodes (hg s0) \<and> coarsen_pass p limit s0 = Inr s' \<and>
       currentNumNodes (hg s') = currentNumNodes (hg s0)))"
proof (induction p limit k s rule: coarsen_while.induct)
  case (1 p limit k s)
  show ?case
  proof (cases "limit < currentNumNodes (hg s)")
    case False
    with "1.prems" have "k' = k" "s' = s"
      by (simp_all add: coarsen_while.simps [of p limit k s])
    with False show ?thesis by auto
  next
    case True
    with "1.prems" obtain s1 where s1: "coarsen_pass p limit s = Inr s1"
      by (auto simp: coarsen_while.simps [of p limit k s] split: sum.splits)
    show ?thesis
    proof (cases "currentNumNodes (hg s) = currentNumNodes (hg s1)")
      case same: True
      with "1.prems" True s1 have "k' = k" "s' = s1"
        by (simp_all add: coarsen_while.simps [of p limit k s])
      with True s1 same show ?thesis by auto
    next
      case diff: False
      with "1.prems" True s1 have run: "coarsen_while p limit (k + 1) s1 = Inr (k', s')"
        by (simp add: coarsen_while.simps [of p limit k s])
      from "1.IH" [OF True s1 diff run] obtain s0 where
        le: "k + 1 \<le> k'" and
        cnt: "nat (k' - (k + 1)) + currentNumNodes (hg s') \<le> currentNumNodes (hg s1)" and
        reach: "(productive_pass p limit ^^ nat (k' - (k + 1))) s1 s0" and
        fin: "s' = s0 \<and> currentNumNodes (hg s') \<le> limit \<or>
       limit < currentNumNodes (hg s0) \<and> coarsen_pass p limit s0 = Inr s' \<and>
       currentNumNodes (hg s') = currentNumNodes (hg s0)"
        by blast
      have pp: "productive_pass p limit s s1"
        using True s1 diff by (simp add: productive_pass_def)
      from le have n: "nat (k' - k) = Suc (nat (k' - (k + 1)))" by simp
      from pp reach have "(productive_pass p limit ^^ nat (k' - k)) s s0"
        unfolding n by (rule relpowp_Suc_I2)
      moreover from coarsen_pass_count [OF s1] diff
      have "currentNumNodes (hg s1) < currentNumNodes (hg s)" by auto
      with cnt n have "nat (k' - k) + currentNumNodes (hg s') \<le> currentNumNodes (hg s)"
        by simp
      ultimately show ?thesis using le fin by auto
    qed
  qed
qed

section \<open>A contracted vertex does not come back\<close>




section \<open>A vertex with no admissible neighbour\<close>

lemma rate_pins_none:
  "\<forall>v \<in> set vs. \<not> (v \<noteq> u \<and> belowThresholdNodeWeight s wu (nodeWeight (hg s) v) \<and>
                     pu = partID (hg s) v) \<Longrightarrow>
   rate_pins p u wu pu sc vs s = s"
proof (induction vs)
  case Nil
  then show ?case by simp
next
  case (Cons v vs)
  then have "\<not> (v \<noteq> u \<and> belowThresholdNodeWeight s wu (nodeWeight (hg s) v) \<and>
                pu = partID (hg s) v)"
    and "rate_pins p u wu pu sc vs s = s" by simp_all
  then show ?case by (simp del: de_Morgan_conj)
qed

lemma rate_edges_none:
  "\<forall>he \<in> set hes. 1 < edgeSize (hg s) he \<and>
     (\<forall>v \<in> set (pins (hg s) he).
        \<not> (v \<noteq> u \<and> belowThresholdNodeWeight s wu (nodeWeight (hg s) v) \<and>
           pu = partID (hg s) v)) \<Longrightarrow>
   rate_edges p u wu pu hes s = Inr s"
  by (induction hes) (simp_all add: rate_pins_none)

lemma rate_none:
  assumes "tmp_ratings s = []"
    and "\<forall>he \<in> set (incidentEdges (hg s) u). 1 < edgeSize (hg s) he \<and>
     (\<forall>v \<in> set (pins (hg s) he).
        \<not> (v \<noteq> u \<and>
           belowThresholdNodeWeight s (nodeWeight (hg s) u) (nodeWeight (hg s) v) \<and>
           partID (hg s) u = partID (hg s) v))"
  shows "rate p u s = Inr (HeavyEdgeRating p, s)"
proof -
  have "rate_edges p u (nodeWeight (hg s) u) (partID (hg s) u) (incidentEdges (hg s) u) s = Inr s"
    using assms(2) by (rule rate_edges_none)
  moreover have "s\<lparr>tmp_ratings := []\<rparr> = s" using assms(1) by simp
  ultimately show ?thesis using assms(1) by (simp add: rate_def)
qed

section \<open>Two vertices of weight 1 under threshold 1\<close>

lemma two_unit_rate:
  assumes "two_unit_vertices s" and "u < 2"
  shows "rate p u s = Inr (HeavyEdgeRating p, s)"
proof (rule rate_none)
  from assms(1) show "tmp_ratings s = []" by (simp add: two_unit_vertices_def)
  from assms(2) have u: "u = 0 \<or> u = 1" by auto
  show "\<forall>he \<in> set (incidentEdges (hg s) u). 1 < edgeSize (hg s) he \<and>
     (\<forall>v \<in> set (pins (hg s) he).
        \<not> (v \<noteq> u \<and>
           belowThresholdNodeWeight s (nodeWeight (hg s) u) (nodeWeight (hg s) v) \<and>
           partID (hg s) u = partID (hg s) v))"
  proof (intro ballI conjI)
    fix he assume "he \<in> set (incidentEdges (hg s) u)"
    then have he: "he \<in> {..<initialNumEdges (hg s)}" by (simp add: incidentEdges_def)
    with assms(1) show "1 < edgeSize (hg s) he" by (simp add: two_unit_vertices_def)
    fix v assume "v \<in> set (pins (hg s) he)"
    with assms(1) he have "v = 0 \<or> v = 1" by (auto simp: two_unit_vertices_def)
    with u assms(1) show "\<not> (v \<noteq> u \<and>
           belowThresholdNodeWeight s (nodeWeight (hg s) u) (nodeWeight (hg s) v) \<and>
           partID (hg s) u = partID (hg s) v)"
      by (auto simp: two_unit_vertices_def belowThresholdNodeWeight_def)
  qed
qed

lemma two_unit_count:
  assumes "two_unit_vertices s"
  shows "nodes (hg s) = [0, 1]" and "currentNumNodes (hg s) = 2"
proof -
  have "[0..<2] = [0, Suc 0]" by (simp add: upt_conv_Cons)
  with assms show "nodes (hg s) = [0, 1]" by (simp add: nodes_def two_unit_vertices_def)
  then show "currentNumNodes (hg s) = 2" by (simp add: currentNumNodes_def)
qed

lemma two_unit_hns:
  assumes "two_unit_vertices s" and "limit < 2"
  shows "coarsen_hns p limit hns s = Inr s"
proof (induction hns)
  case Nil
  show ?case by simp
next
  case (Cons hn hns)
  show ?case
  proof (cases "nodeIsEnabled (hg s) hn")
    case False
    with Cons show ?thesis by simp
  next
    case True
    with assms(1) have "hn < 2" by (simp add: nodeIsEnabled_def two_unit_vertices_def)
    from two_unit_rate [OF assms(1) this] have "rate p hn s = Inr (HeavyEdgeRating p, s)" .
    moreover have "contract_rated p hn (HeavyEdgeRating p) s = Inr s"
      by (simp add: contract_rated_def HeavyEdgeRating_def)
    moreover have "\<not> currentNumNodes (hg s) \<le> limit"
      using two_unit_count(2) [OF assms(1)] assms(2) by simp
    ultimately show ?thesis using True Cons by simp
  qed
qed

lemma two_unit_pass:
  assumes "two_unit_vertices s" and "limit < 2"
  shows "coarsen_pass p limit s =
     Inr (s\<lparr>already_matched := {},
            randomize := snd (shuffleVector p [0, 1] (randomize s)),
            callback_state := end_of_pass_func p (callback_state s)\<rparr>)"
proof -
  obtain shuffled g where sh: "shuffleVector p [0, 1] (randomize s) = (shuffled, g)"
    by fastforce
  have "two_unit_vertices (s\<lparr>already_matched := {}, randomize := g\<rparr>)"
    using assms(1) by (simp add: two_unit_vertices_def)
  from two_unit_hns [OF this assms(2)]
  have "coarsen_hns p limit shuffled (s\<lparr>already_matched := {}, randomize := g\<rparr>) =
      Inr (s\<lparr>already_matched := {}, randomize := g\<rparr>)" .
  then show ?thesis
    using sh two_unit_count(1) [OF assms(1)]
    by (simp add: coarsen_pass_def resetMatches_def)
qed

section \<open>A policy that leaves the random source alone\<close>

lemma rate_scan_randomize:
  assumes "\<forall>t m tg tt ms g. snd (acceptRating p t m tg tt ms g) = g"
  shows "rate_scan p u wu es best s = (best', s') \<Longrightarrow> randomize s' = randomize s"
proof (induction es arbitrary: best s)
  case Nil
  then show ?case by simp
next
  case (Cons e es)
  obtain k x where e: "e = (k, x)" by (cases e)
  obtain m t where best: "best = (m, t)" by (cases best)
  let ?r = "rt_divide p x (penalty p wu (nodeWeight (hg s) k))"
  show ?case
  proof (cases "comm s ! u = comm s ! k")
    case True
    obtain a g where acc: "acceptRating p ?r m t k (already_matched s) (randomize s) = (a, g)"
      by fastforce
    with assms have g: "g = randomize s" by (metis snd_conv)
    from Cons.prems True acc have run: "rate_scan p u wu es
        (if a then (?r, k) else (m, t)) (s\<lparr>randomize := g\<rparr>) = (best', s')"
      by (simp add: e best Let_def)
    from Cons.IH [OF run] g show ?thesis by simp
  next
    case False
    with Cons.prems have run: "rate_scan p u wu es (m, t) s = (best', s')"
      by (simp add: e best Let_def)
    then show ?thesis by (rule Cons.IH)
  qed
qed

lemma rate_randomize:
  assumes det: "\<forall>t m tg tt ms g. snd (acceptRating p t m tg tt ms g) = g"
    and run: "rate p u s = Inr (r, s')"
  shows "randomize s' = randomize s"
proof -
  from run obtain s1 where s1: "rate_edges p u (nodeWeight (hg s) u) (partID (hg s) u)
      (incidentEdges (hg s) u) s = Inr s1"
    by (auto simp: rate_def Let_def split: sum.splits)
  obtain b s2 where s2: "rate_scan p u (nodeWeight (hg s) u) (rev (tmp_ratings s1))
      (rt_min p, kInvalidTarget) s1 = (b, s2)"
    by fastforce
  from run s1 s2 have s': "s' = s2\<lparr>tmp_ratings := []\<rparr>"
    by (auto simp: rate_def Let_def split: sum.splits prod.splits if_splits)
  from rate_edges_frame [OF s1] obtain t where "s1 = s\<lparr>tmp_ratings := t\<rparr>" ..
  then have "randomize s1 = randomize s" by simp
  with rate_scan_randomize [OF det s2] s' show ?thesis by simp
qed

section \<open>The assertion on the size of the incident hyperedges\<close>

lemma rate_edges_abort:
  "\<exists>he \<in> set hes. \<not> 1 < edgeSize (hg s) he \<Longrightarrow>
   rate_edges p u wu pu hes s = Inl EdgeSizeAssertion"
proof (induction hes arbitrary: s)
  case Nil
  then show ?case by simp
next
  case (Cons he hes)
  show ?case
  proof (cases "1 < edgeSize (hg s) he")
    case False
    then show ?thesis by simp
  next
    case True
    let ?s1 = "rate_pins p u wu pu
                (rt_divide p (rt_of_weight p (edgeWeight (hg s) he))
                             (rt_of_size p (edgeSize (hg s) he - 1)))
                (pins (hg s) he) s"
    have "hg ?s1 = hg s" by (simp add: rate_pins_frame)
    with Cons.prems True have "\<exists>he \<in> set hes. \<not> 1 < edgeSize (hg ?s1) he" by auto
    then have "rate_edges p u wu pu hes ?s1 = Inl EdgeSizeAssertion" by (rule Cons.IH)
    with True show ?thesis by simp
  qed
qed

lemma rate_edges_returns:
  "\<forall>he \<in> set hes. 1 < edgeSize (hg s) he \<Longrightarrow> \<exists>s'. rate_edges p u wu pu hes s = Inr s'"
proof (induction hes arbitrary: s)
  case Nil
  then show ?case by simp
next
  case (Cons he hes)
  let ?s1 = "rate_pins p u wu pu
                (rt_divide p (rt_of_weight p (edgeWeight (hg s) he))
                             (rt_of_size p (edgeSize (hg s) he - 1)))
                (pins (hg s) he) s"
  have "hg ?s1 = hg s" by (simp add: rate_pins_frame)
  with Cons.prems have "\<forall>he \<in> set hes. 1 < edgeSize (hg ?s1) he" by simp
  then have "\<exists>s'. rate_edges p u wu pu hes ?s1 = Inr s'" by (rule Cons.IH)
  with Cons.prems show ?case by simp
qed

lemma rate_returns:
  assumes empty: "tmp_ratings s = []"
    and sizes: "\<forall>he \<in> set (incidentEdges (hg s) u). 1 < edgeSize (hg s) he"
    and ids: "\<forall>he \<in> set (incidentEdges (hg s) u). \<forall>v \<in> set (pins (hg s) he). v < kInvalidTarget"
  shows "\<exists>r s'. rate p u s = Inr (r, s')"
proof -
  let ?wu = "nodeWeight (hg s) u" and ?pu = "partID (hg s) u"
  from rate_edges_returns [OF sizes] obtain s1 where
    s1: "rate_edges p u ?wu ?pu (incidentEdges (hg s) u) s = Inr s1" by blast
  obtain m t s2 where s2: "rate_scan p u ?wu (rev (tmp_ratings s1)) (rt_min p, kInvalidTarget) s1 =
      ((m, t), s2)"
    by (metis surj_pair)
  from rate_edges_frame [OF s1] obtain acc where f1: "s1 = s\<lparr>tmp_ratings := acc\<rparr>" ..
  from rate_scan_frame [OF s2] obtain g where f2: "s2 = s1\<lparr>randomize := g\<rparr>" ..
  show ?thesis
  proof (cases "m = rt_min p")
    case True
    with s1 s2 show ?thesis by (simp add: rate_def)
  next
    case False
    with rate_scan_selects [OF s2] obtain x where
      x: "(t, x) \<in> set (tmp_ratings s1)" and c: "comm s1 ! u = comm s1 ! t"
      by auto
    from x have "t \<in> fst ` set (tmp_ratings s1)" by force
    then have k: "(\<exists>he \<in> set (incidentEdges (hg s) u). t \<in> set (pins (hg s) he)) \<and>
        ?pu = partID (hg s) t"
      unfolding rate_edges_keys [OF s1] using empty by simp
    with ids have "t \<noteq> kInvalidTarget" by auto
    with False k c s1 s2 show ?thesis
      by (simp add: rate_def f1 f2)
  qed
qed

section \<open>The values of the accumulator\<close>







section \<open>The examples, evaluated\<close>

lemma ex_rate_0:
  "rate ex_params 0 ex_state =
     Inr (\<lparr>target = 2, rvalue = 2, valid = True\<rparr>, ex_state\<lparr>randomize := []\<rparr>)"
  by (simp add: rate_def ex_params_def ex_state_def ex_hg_def incidentEdges_def edgeSize_def
      belowThresholdNodeWeight_def sparse_map_add_def flipCoin_def kInvalidTarget_def Let_def)

lemma ex_rate_0_again:
  "rate ex_params 0 (ex_state\<lparr>randomize := []\<rparr>) =
     Inr (\<lparr>target = 3, rvalue = 2, valid = True\<rparr>, ex_state\<lparr>randomize := []\<rparr>)"
  by (simp add: rate_def ex_params_def ex_state_def ex_hg_def incidentEdges_def edgeSize_def
      belowThresholdNodeWeight_def sparse_map_add_def flipCoin_def kInvalidTarget_def Let_def)

lemma ex_params_sel:
  "rt_zero ex_params = 0"
  "rt_min ex_params = 1 / 2 ^ 1022"
  "rt_plus ex_params = (+)"
  "rt_divide ex_params = (/)"
  "rt_of_weight ex_params = of_int"
  "rt_of_size ex_params = of_nat"
  "penalty ex_params = (\<lambda>weight_u weight_v. of_int (weight_u * weight_v))"
  "acceptRating ex_params = (\<lambda>tmp max_rating old_target new_target matched g.
         if max_rating < tmp then (True, g)
         else if max_rating = tmp then flipCoin g else (False, g))"
  "shuffleVector ex_params = (\<lambda>hns g. (hns, g))"
  "contraction_func ex_params = (\<lambda>u v (log, n). (log @ [(u, v)], n))"
  "end_of_pass_func ex_params = (\<lambda>(log, n). (log, n + 1))"
  by (simp_all add: ex_params_def)

lemmas ex_defs =
  ex_params_sel upt_conv_Cons ex_state_def ex_hg_def ex_final_def flipCoin_def kInvalidTarget_def
  rate_def incidentEdges_def edgeSize_def belowThresholdNodeWeight_def sparse_map_add_def
  coarsen_pass_def contract_rated_def performContraction_def markAsMatched_def
  resetMatches_def nodes_def currentNumNodes_def nodeIsEnabled_def contract_def Let_def

lemma ex_pass: "coarsen_pass ex_params 2 ex_state = Inr ex_final"
  by (simp add: ex_defs)

lemma ex_final_count: "currentNumNodes (hg ex_final) = 2"
  by (simp add: ex_defs)

lemma ex_coarsen: "coarsenImpl ex_params 2 ex_state = Inr (1, ex_final)"
proof -
  have "currentNumNodes (hg ex_state) = 4" by (simp add: ex_defs)
  then show ?thesis
    by (simp add: coarsenImpl_def coarsen_while.simps [of _ _ _ ex_state]
        coarsen_while.simps [of _ _ _ ex_final] ex_pass ex_final_count)
qed

lemma ex_pass2: "coarsen_pass ex_params 1 ex_state2 = Inr ex_stalled"
  by (simp add: ex_defs HeavyEdgeRating_def ex_hg2_def ex_state2_def ex_stalled_def)

lemma ex_count2:
  "currentNumNodes (hg ex_state2) = 2" "currentNumNodes (hg ex_stalled) = 2"
  by (simp_all add: ex_defs ex_hg2_def ex_state2_def ex_stalled_def)

lemma ex_count: "currentNumNodes (hg ex_state) = 4"
  by (simp add: ex_defs)



lemma ex_rate_det:
  "rate ex_params_det 0 ex_state = Inr (\<lparr>target = 3, rvalue = 2, valid = True\<rparr>, ex_state)"
  by (simp add: ex_defs ex_params_det_def)

lemma ex_rate_single: "rate ex_params 0 ex_state_single = Inl EdgeSizeAssertion"
  by (simp add: ex_defs ex_state_single_def ex_hg_single_def)



section \<open>The claims\<close>







text \<open>
  C4. \<^verbatim>\<open>coarsen(limit)\<close> always terminates: the loop is a total function, by the
  termination proof of \<open>coarsen_while\<close>, whose measure is the number of live vertices.
  When it returns, after \<open>pass_nr\<close> passes that changed that number, either the number
  is at most \<open>limit\<close> or the last pass left it as it was; each of the \<open>pass_nr\<close> passes
  removed a vertex, so their number is bounded by the vertices removed. A pass removes
  as many vertices as it appends records to the history, so that a pass with a
  contraction strictly decreases the number of live vertices. A pass that stalls ends
  the run with a normal return.
\<close>

theorem coarsenImpl_stops:
  "(coarsenImpl p limit s = Inr (pass_nr, s') \<longrightarrow>
      0 \<le> pass_nr \<and> nat pass_nr + currentNumNodes (hg s') \<le> currentNumNodes (hg s) \<and>
      (\<exists>s0. (productive_pass p limit ^^ nat pass_nr) s s0 \<and>
         (s' = s0 \<and> currentNumNodes (hg s') \<le> limit \<or>
          limit < currentNumNodes (hg s0) \<and> coarsen_pass p limit s0 = Inr s' \<and>
          currentNumNodes (hg s') = currentNumNodes (hg s0)))) \<and>
   (coarsen_pass p limit s1 = Inr s2 \<longrightarrow>
      (\<exists>ms. history s2 = history s1 @ ms \<and>
            currentNumNodes (hg s2) + length ms = currentNumNodes (hg s1)) \<and>
      (history s2 \<noteq> history s1 \<longrightarrow> currentNumNodes (hg s2) < currentNumNodes (hg s1))) \<and>
   (limit < currentNumNodes (hg s3) \<and> coarsen_pass p limit s3 = Inr s4 \<and>
    currentNumNodes (hg s4) = currentNumNodes (hg s3) \<longrightarrow>
      coarsenImpl p limit s3 = Inr (0, s4))"
proof (intro conjI impI)
  assume run: "coarsenImpl p limit s = Inr (pass_nr, s')"
  then have w: "coarsen_while p limit 0 s = Inr (pass_nr, s')"
    by (simp add: coarsenImpl_def)
  from coarsen_while_stops [OF w] show "0 \<le> pass_nr"
    and "nat pass_nr + currentNumNodes (hg s') \<le> currentNumNodes (hg s)"
    and "\<exists>s0. (productive_pass p limit ^^ nat pass_nr) s s0 \<and>
         (s' = s0 \<and> currentNumNodes (hg s') \<le> limit \<or>
          limit < currentNumNodes (hg s0) \<and> coarsen_pass p limit s0 = Inr s' \<and>
          currentNumNodes (hg s') = currentNumNodes (hg s0))"
    by simp_all
next
  assume pass: "coarsen_pass p limit s1 = Inr s2"
  from coarsen_pass_count [OF pass]
  show "\<exists>ms. history s2 = history s1 @ ms \<and>
            currentNumNodes (hg s2) + length ms = currentNumNodes (hg s1)" .
  assume diff: "history s2 \<noteq> history s1"
  from coarsen_pass_count [OF pass] obtain ms where
    ms: "history s2 = history s1 @ ms"
      "currentNumNodes (hg s2) + length ms = currentNumNodes (hg s1)"
    by blast
  from ms(1) diff have "ms \<noteq> []" by auto
  then have "0 < length ms" by (cases ms) simp_all
  with ms(2) show "currentNumNodes (hg s2) < currentNumNodes (hg s1)" by linarith
next
  assume "limit < currentNumNodes (hg s3) \<and> coarsen_pass p limit s3 = Inr s4 \<and>
    currentNumNodes (hg s4) = currentNumNodes (hg s3)"
  then show "coarsenImpl p limit s3 = Inr (0, s4)"
    by (simp add: coarsenImpl_def coarsen_while.simps [of p limit 0 s3])
qed

theorem coarsenImpl_stops_witness:
  "coarsenImpl ex_params 2 ex_state = Inr (1, ex_final) \<and>
   nat 1 + currentNumNodes (hg ex_final) \<le> currentNumNodes (hg ex_state) \<and>
   currentNumNodes (hg ex_final) \<le> 2 \<and>
   coarsen_pass ex_params 2 ex_state = Inr ex_final \<and>
   history ex_final \<noteq> history ex_state \<and>
   currentNumNodes (hg ex_final) < currentNumNodes (hg ex_state) \<and>
   1 < currentNumNodes (hg ex_state2) \<and>
   coarsen_pass ex_params 1 ex_state2 = Inr ex_stalled \<and>
   currentNumNodes (hg ex_stalled) = currentNumNodes (hg ex_state2) \<and>
   coarsenImpl ex_params 1 ex_state2 = Inr (0, ex_stalled)"
proof -
  have h: "history ex_final \<noteq> history ex_state"
    by (simp add: ex_final_def ex_state_def)
  from coarsenImpl_stops [of ex_params 2 ex_state 1 ex_final ex_state ex_final]
    coarsenImpl_stops [of ex_params 1 _ _ _ _ _ ex_state2 ex_stalled]
    ex_coarsen ex_pass ex_pass2 ex_count2 ex_final_count ex_count h
  show ?thesis by simp
qed




text \<open>
  C6, as the code has it. \<^verbatim>\<open>rate(u)\<close> does not skip a hyperedge of size at most 1: it
  asserts that every hyperedge incident to \<open>u\<close> has more than one pin and aborts on one
  that has not, so that no score is computed from it. When every incident hyperedge has
  more than one pin (the divisor \<^verbatim>\<open>edgeSize(he) - 1\<close> is then at least 1) and the pins
  are vertex ids, \<^verbatim>\<open>rate(u)\<close>, entered with its accumulator empty, returns a rating.
\<close>

theorem rate_asserts_edge_sizes:
  "((\<exists>he \<in> set (incidentEdges (hg s) u). edgeSize (hg s) he \<le> 1) \<longrightarrow>
      rate p u s = Inl EdgeSizeAssertion) \<and>
   (tmp_ratings s = [] \<and>
    (\<forall>he \<in> set (incidentEdges (hg s) u).
       1 \<le> edgeSize (hg s) he - 1 \<and> (\<forall>v \<in> set (pins (hg s) he). v < kInvalidTarget)) \<longrightarrow>
      (\<exists>r s'. rate p u s = Inr (r, s')))"
proof (intro conjI impI)
  assume "\<exists>he \<in> set (incidentEdges (hg s) u). edgeSize (hg s) he \<le> 1"
  then have "\<exists>he \<in> set (incidentEdges (hg s) u). \<not> 1 < edgeSize (hg s) he"
    by (simp add: not_less)
  then have "rate_edges p u (nodeWeight (hg s) u) (partID (hg s) u)
      (incidentEdges (hg s) u) s = Inl EdgeSizeAssertion"
    by (rule rate_edges_abort)
  then show "rate p u s = Inl EdgeSizeAssertion" by (simp add: rate_def)
next
  assume a: "tmp_ratings s = [] \<and>
    (\<forall>he \<in> set (incidentEdges (hg s) u).
       1 \<le> edgeSize (hg s) he - 1 \<and> (\<forall>v \<in> set (pins (hg s) he). v < kInvalidTarget))"
  then have "\<forall>he \<in> set (incidentEdges (hg s) u). 1 < edgeSize (hg s) he" by auto
  with a show "\<exists>r s'. rate p u s = Inr (r, s')"
    by (intro rate_returns) auto
qed

theorem rate_asserts_edge_sizes_witness:
  "edgeSize (hg ex_state_single) 0 \<le> 1 \<and>
   0 \<in> set (incidentEdges (hg ex_state_single) 0) \<and>
   rate ex_params 0 ex_state_single = Inl EdgeSizeAssertion \<and>
   tmp_ratings ex_state = [] \<and> incidentEdges (hg ex_state) 0 = [0] \<and>
   1 \<le> edgeSize (hg ex_state) 0 - 1 \<and> set (pins (hg ex_state) 0) = {0, 1, 2, 3} \<and>
   (\<exists>r s'. rate ex_params 0 ex_state = Inr (r, s'))"
proof -
  have a: "edgeSize (hg ex_state_single) 0 \<le> 1"
    "0 \<in> set (incidentEdges (hg ex_state_single) 0)"
    by (simp_all add: ex_state_single_def ex_hg_single_def incidentEdges_def edgeSize_def
        upt_conv_Cons)
  have b: "tmp_ratings ex_state = []" "incidentEdges (hg ex_state) 0 = [0]"
    "1 \<le> edgeSize (hg ex_state) 0 - 1" "set (pins (hg ex_state) 0) = {0, 1, 2, 3}"
    by (simp_all add: ex_state_def ex_hg_def incidentEdges_def edgeSize_def)
  from rate_asserts_edge_sizes [of ex_state_single 0 ex_params]
    rate_asserts_edge_sizes [of ex_state 0 ex_params] a b
  show ?thesis by (auto simp: kInvalidTarget_def)
qed

theorem rate_single_pin_edge_counterexample:
  "0 \<in> set (incidentEdges (hg ex_state_single) 0) \<and> edgeSize (hg ex_state_single) 0 = 1 \<and>
   rate ex_params 0 ex_state_single = Inl EdgeSizeAssertion"
  using ex_rate_single
  by (simp add: ex_state_single_def ex_hg_single_def incidentEdges_def edgeSize_def
      upt_conv_Cons)

text \<open>
  C7, as the code has it. Two calls of \<^verbatim>\<open>rate(u)\<close> with no mutation of the hypergraph
  or of the matched vertices in between return the same rating when the random source
  is in the same state at both calls; so they do, one right after the other, when the
  acceptance policy draws nothing from the random source. (The acceptance policy is a
  template parameter, by default one with random tie breaking; the first call hands
  the random source on to the second.)
\<close>

theorem rate_twice_same:
  assumes "tmp_ratings s = []" and "rate p u s = Inr (r, s')"
  shows "rate p u (s'\<lparr>randomize := randomize s\<rparr>) = Inr (r, s') \<and>
         ((\<forall>t m tg tt ms g. snd (acceptRating p t m tg tt ms g) = g) \<longrightarrow>
            rate p u s' = Inr (r, s'))"
proof -
  from rate_frame [OF assms(2)] obtain g where s': "s' = s\<lparr>tmp_ratings := [], randomize := g\<rparr>" ..
  with assms(1) have restored: "s'\<lparr>randomize := randomize s\<rparr> = s" by simp
  have "s' = s" if "\<forall>t m tg tt ms g. snd (acceptRating p t m tg tt ms g) = g"
  proof -
    from rate_randomize [OF that assms(2)] have "s'\<lparr>randomize := randomize s\<rparr> = s'"
      by simp
    with restored show ?thesis by simp
  qed
  with restored assms(2) show ?thesis by auto
qed

theorem rate_twice_same_witness:
  "tmp_ratings ex_state = [] \<and>
   rate ex_params 0 ex_state =
     Inr (\<lparr>target = 2, rvalue = 2, valid = True\<rparr>, ex_state\<lparr>randomize := []\<rparr>) \<and>
   rate ex_params 0 (ex_state\<lparr>randomize := [], randomize := randomize ex_state\<rparr>) =
     Inr (\<lparr>target = 2, rvalue = 2, valid = True\<rparr>, ex_state\<lparr>randomize := []\<rparr>) \<and>
   (\<forall>t m tg tt ms g. snd (acceptRating ex_params_det t m tg tt ms g) = g) \<and>
   rate ex_params_det 0 ex_state = Inr (\<lparr>target = 3, rvalue = 2, valid = True\<rparr>, ex_state)"
proof -
  have e: "tmp_ratings ex_state = []" by (simp add: ex_state_def)
  have d: "\<forall>t m tg tt ms g. snd (acceptRating ex_params_det t m tg tt ms g) = g"
    by (simp add: ex_params_det_def)
  from rate_twice_same [OF e ex_rate_0] rate_twice_same [OF e ex_rate_det] e d
    ex_rate_0 ex_rate_det
  show ?thesis by blast
qed

theorem rate_twice_differs_counterexample:
  "rate ex_params 0 ex_state =
     Inr (\<lparr>target = 2, rvalue = 2, valid = True\<rparr>, ex_state\<lparr>randomize := []\<rparr>) \<and>
   hg (ex_state\<lparr>randomize := []\<rparr>) = hg ex_state \<and>
   already_matched (ex_state\<lparr>randomize := []\<rparr>) = already_matched ex_state \<and>
   rate ex_params 0 (ex_state\<lparr>randomize := []\<rparr>) =
     Inr (\<lparr>target = 3, rvalue = 2, valid = True\<rparr>, ex_state\<lparr>randomize := []\<rparr>)"
  using ex_rate_0 ex_rate_0_again by simp

text \<open>
  C8. With the threshold at 1 and a hypergraph of two enabled vertices of weight 1 each,
  \<^verbatim>\<open>rate\<close> returns the invalid rating for both vertices and leaves the state as it
  was, and \<^verbatim>\<open>coarsen\<close> returns with the hypergraph unchanged and two live vertices:
  after one pass (one reset of the matches, one shuffle, one end-of-pass callback) when
  the limit is below 2, and at once otherwise.
\<close>

theorem two_unit_vertices_stall:
  assumes "two_unit_vertices s"
  shows "rate p 0 s = Inr (HeavyEdgeRating p, s) \<and> rate p 1 s = Inr (HeavyEdgeRating p, s) \<and>
         \<not> valid (HeavyEdgeRating p) \<and> currentNumNodes (hg s) = 2 \<and>
         coarsenImpl p limit s =
           Inr (0, if limit < 2
                   then s\<lparr>already_matched := {},
                          randomize := snd (shuffleVector p [0, 1] (randomize s)),
                          callback_state := end_of_pass_func p (callback_state s)\<rparr>
                   else s)"
proof -
  note cnt = two_unit_count(2) [OF assms]
  have "coarsenImpl p limit s = Inr (0, s)" if "\<not> limit < 2"
    using that cnt by (simp add: coarsenImpl_def coarsen_while.simps [of p limit 0 s])
  moreover have "coarsenImpl p limit s =
           Inr (0, s\<lparr>already_matched := {},
                      randomize := snd (shuffleVector p [0, 1] (randomize s)),
                      callback_state := end_of_pass_func p (callback_state s)\<rparr>)"
    if "limit < 2"
    using that cnt two_unit_pass [OF assms that, of p]
    by (simp add: coarsenImpl_def coarsen_while.simps [of p limit 0 s] currentNumNodes_def
        nodes_def)
  ultimately show ?thesis
    using two_unit_rate [OF assms, of 0 p] two_unit_rate [OF assms, of 1 p] cnt
    by (simp add: HeavyEdgeRating_def)
qed

theorem two_unit_vertices_stall_witness:
  "two_unit_vertices ex_state2 \<and>
   rate ex_params 0 ex_state2 = Inr (HeavyEdgeRating ex_params, ex_state2) \<and>
   rate ex_params 1 ex_state2 = Inr (HeavyEdgeRating ex_params, ex_state2) \<and>
   currentNumNodes (hg ex_state2) = 2 \<and>
   coarsenImpl ex_params 1 ex_state2 = Inr (0, ex_stalled)"
proof -
  have t: "two_unit_vertices ex_state2"
    by (simp add: two_unit_vertices_def ex_state2_def ex_hg2_def edgeSize_def)
  have "ex_state2\<lparr>already_matched := {},
          randomize := snd (shuffleVector ex_params [0, 1] (randomize ex_state2)),
          callback_state := end_of_pass_func ex_params (callback_state ex_state2)\<rparr> = ex_stalled"
    by (simp add: ex_state2_def ex_stalled_def ex_params_sel)
  with two_unit_vertices_stall [OF t, of ex_params 1] t show ?thesis by simp
qed

text \<open>
  C9. \<^verbatim>\<open>rate(u)\<close> mutates neither the hypergraph nor the set of matched vertices, and
  when it returns the score accumulator is empty: no entry of one call is seen by a
  later one. (Nor does it touch the community labels, the threshold, the history or what
  the callbacks own; only the random source may have advanced.)
\<close>

theorem rate_frame_effect:
  assumes "rate p u s = Inr (r, s')"
  shows "hg s' = hg s \<and> already_matched s' = already_matched s \<and> tmp_ratings s' = [] \<and>
         comm s' = comm s \<and> max_allowed_node_weight s' = max_allowed_node_weight s \<and>
         history s' = history s \<and> callback_state s' = callback_state s"
proof -
  have "s' = s\<lparr>tmp_ratings := [], randomize := randomize s'\<rparr>"
    using assms by (rule rate_frame)
  then obtain g where "s' = s\<lparr>tmp_ratings := [], randomize := g\<rparr>" ..
  then show ?thesis by simp
qed

theorem rate_frame_effect_witness:
  "rate ex_params 0 ex_state =
     Inr (\<lparr>target = 2, rvalue = 2, valid = True\<rparr>, ex_state\<lparr>randomize := []\<rparr>) \<and>
   hg (ex_state\<lparr>randomize := []\<rparr>) = hg ex_state \<and>
   already_matched (ex_state\<lparr>randomize := []\<rparr>) = already_matched ex_state \<and>
   tmp_ratings (ex_state\<lparr>randomize := []\<rparr>) = []"
  using rate_frame_effect [OF ex_rate_0] ex_rate_0 by simp

text \<open>
  C10. Every rating that \<^verbatim>\<open>rate\<close> returns is valid if and only if its target is not the
  largest \<^verbatim>\<open>HypernodeID\<close>, if and only if its value is not the minimum of the rating
  type; so the test \<^verbatim>\<open>rating.target != kInvalidTarget\<close> of the driver is the test of
  \<^verbatim>\<open>rating.valid\<close>, and an invalid rating carries the sentinel target and value.
\<close>

theorem rate_rating_sentinels:
  assumes "rate p u s = Inr (r, s')"
  shows "(valid r \<longleftrightarrow> target r \<noteq> kInvalidTarget) \<and>
         (valid r \<longleftrightarrow> rvalue r \<noteq> rt_min p) \<and>
         (\<not> valid r \<longrightarrow> target r = kInvalidTarget \<and> rvalue r = rt_min p)"
  using assms by (rule rate_sentinels)

theorem rate_rating_sentinels_witness:
  "rate ex_params 0 ex_state =
     Inr (\<lparr>target = 2, rvalue = 2, valid = True\<rparr>, ex_state\<lparr>randomize := []\<rparr>) \<and>
   valid \<lparr>target = 2, rvalue = 2 :: rat, valid = True\<rparr> \<and>
   target \<lparr>target = 2, rvalue = 2 :: rat, valid = True\<rparr> \<noteq> kInvalidTarget \<and>
   rvalue \<lparr>target = 2, rvalue = 2 :: rat, valid = True\<rparr> \<noteq> rt_min ex_params"
  using rate_rating_sentinels [OF ex_rate_0] ex_rate_0 by simp

end
